theory Spec2Isabelle
  imports Complex_Main "HOL-Library.AList" "HOL-Library.Sublist"
begin

section \<open>docktail: a shallow embedding of \<open>src/docktail.py\<close>\<close>

text \<open>
  The program tails the logs of Docker containers.  Everything the Docker client, the
  threads and the clock answer is an input of the model: a function of the source that
  asks the environment takes the answer as an argument, and what the function does to the
  outside (console output, sleeping, starting a thread) is returned as a value.
  Python exceptions are values of \<open>py_error\<close>.
\<close>

subsection \<open>Identity assigner: \<open>STYLES\<close>, \<open>hashed_index\<close>, \<open>assign_style\<close>\<close>

datatype py_error = IndexError | DockerException

definition STYLES :: "string list" where
  "STYLES =
    [''bold cyan'', ''bold magenta'', ''bold green'', ''bold yellow'', ''bold blue'', ''bold red'',
     ''cyan'', ''magenta'', ''green'', ''yellow'', ''blue'', ''red'',
     ''bright_cyan'', ''bright_magenta'', ''bright_green'', ''bright_yellow'', ''bright_blue'',
     ''bright_red'']"

text \<open>
  \<open>xs[i]\<close> for a non-negative index: Python raises \<open>IndexError\<close> out of range.
\<close>

definition getitem :: "'a list \<Rightarrow> nat \<Rightarrow> py_error + 'a" where
  "getitem xs i = (if i < length xs then Inr (xs ! i) else Inl IndexError)"

text \<open>
  \<open>int(hashlib.sha256(name.encode("utf-8")).hexdigest(), 16) % len(STYLES)\<close>.
  SHA-256 is the standard library's; the digest read as a natural number is the
  parameter \<open>sha\<close>.
\<close>

definition hashed_index :: "(string \<Rightarrow> nat) \<Rightarrow> string \<Rightarrow> nat" where
  "hashed_index sha nm = sha nm mod length STYLES"

text \<open>
  The \<open>for off in range(len(STYLES))\<close> loop of \<open>assign_style\<close>, over the offsets still
  to try: \<open>Inr (Some candidate)\<close> is the \<open>return candidate\<close> inside the loop,
  \<open>Inr None\<close> is the loop running to its end.
\<close>

fun scan_palette :: "nat \<Rightarrow> string set \<Rightarrow> nat list \<Rightarrow> py_error + string option" where
  "scan_palette start used_styles [] = Inr None"
| "scan_palette start used_styles (off # offs) =
     (case getitem STYLES ((start + off) mod length STYLES) of
        Inl e \<Rightarrow> Inl e
      | Inr candidate \<Rightarrow>
          if candidate \<notin> used_styles then Inr (Some candidate)
          else scan_palette start used_styles offs)"

definition assign_style :: "(string \<Rightarrow> nat) \<Rightarrow> string \<Rightarrow> string set \<Rightarrow> py_error + string" where
  "assign_style sha nm used_styles =
     (let start = hashed_index sha nm in
      case scan_palette start used_styles [0..<length STYLES] of
        Inl e \<Rightarrow> Inl e
      | Inr (Some candidate) \<Rightarrow> Inr candidate
      | Inr None \<Rightarrow> getitem STYLES start)"

subsection \<open>What the Docker client answers\<close>

text \<open>
  A \<open>Container\<close> object of the Docker library is modelled by what its calls answer:
  \<open>reload\<close> is the result of \<open>c.reload()\<close> (\<open>None\<close>: the call raises; otherwise the
  refreshed attributes), \<open>logs\<close> is what iterating \<open>c.logs(stream=True, follow=True, ...)\<close>
  yields: the chunks, each with the value of \<open>stop_event.is_set()\<close> at the time it
  arrives, and how the stream finishes.  A chunk is given as its text after
  \<open>decode("utf-8", errors="replace")\<close>, which never raises.
  In \<open>config\<close>, \<open>None\<close> is a key that is absent (\<open>cfg.get\<close> returns Python's \<open>None\<close>).
\<close>

record config =
  Tty :: "bool option"
  OpenStdin :: "bool option"

record attrs =
  status :: string
  Config :: "config option"

datatype stream_end = StreamEnds | APIError | StreamException

type_synonym chunk = "bool \<times> string"

record container =
  name :: string
  reload :: "attrs option"
  logs :: "chunk list \<times> stream_end"

text \<open>\<open>client.containers.get(name)\<close>: \<open>docker.errors.NotFound\<close>, another exception, or a container.\<close>

datatype lookup = NotFound | LookupException | Found container

subsection \<open>Tail worker: \<open>LogWorker\<close>\<close>

text \<open>
  The fields of \<open>LogWorker\<close>.  \<open>client\<close> and \<open>stop_event\<close> are references to shared
  objects: their answers are inputs of \<open>run\<close>.  \<open>is_alive\<close> is the state of the thread
  (\<open>threading.Thread.is_alive()\<close>).
\<close>

record LogWorker =
  container_name :: string
  style :: string
  tail :: string
  since :: "int option"
  poll_sleep :: real
  attached_running :: bool
  is_alive :: bool

text \<open>
  What a worker does to the outside: \<open>console.print(Text(text, style=style))\<close> and
  \<open>time.sleep\<close>.  Both are taken to return; a thread that an exception of theirs
  ends is a worker with \<open>is_alive\<close> false.
\<close>

datatype event = Print string string | Sleep real

definition banner :: "LogWorker \<Rightarrow> string \<Rightarrow> event" where
  "banner w pfx = Print (pfx @ '' '' @ container_name w) (style w)"

definition rstrip_newline :: "string \<Rightarrow> string" where
  "rstrip_newline s = rev (dropWhile (\<lambda>c. c = CHR 0x0A) (rev s))"

text \<open>
  The \<open>for chunk in container.logs(...)\<close> loop with its two \<open>except\<close> clauses: a
  \<open>break\<close> leaves the stream unread, so only a stream read to its end can raise.
\<close>

fun stream_logs :: "LogWorker \<Rightarrow> chunk list \<Rightarrow> stream_end \<Rightarrow> event list" where
  "stream_logs w [] StreamEnds = []"
| "stream_logs w [] APIError = [Sleep (poll_sleep w)]"
| "stream_logs w [] StreamException = [Sleep (poll_sleep w)]"
| "stream_logs w ((stop_set, text) # chunks) fin =
     (if stop_set then []
      else (let line = rstrip_newline text in
            (if line \<noteq> [] then [Print (''['' @ container_name w @ ''] '' @ line) (style w)]
             else []) @ stream_logs w chunks fin))"

text \<open>One pass through the body of the \<open>while\<close> loop of \<open>LogWorker.run\<close>.\<close>

definition run_body :: "LogWorker \<Rightarrow> lookup \<Rightarrow> LogWorker \<times> event list" where
  "run_body w got =
     (case got of
        NotFound \<Rightarrow>
          if attached_running w
          then (w\<lparr>attached_running := False\<rparr>, [banner w ''-'', Sleep (poll_sleep w)])
          else (w, [Sleep (poll_sleep w)])
      | LookupException \<Rightarrow> (w, [Sleep (poll_sleep w)])
      | Found c \<Rightarrow>
          (case reload c of
             None \<Rightarrow> (w, [Sleep (poll_sleep w)])
           | Some a \<Rightarrow>
               if status a \<noteq> ''running''
               then (if attached_running w
                     then (w\<lparr>attached_running := False\<rparr>, [banner w ''-'', Sleep (poll_sleep w)])
                     else (w, [Sleep (poll_sleep w)]))
               else (let (w', started) =
                           (if \<not> attached_running w
                            then (w\<lparr>attached_running := True\<rparr>, [banner w ''+''])
                            else (w, []))
                     in (w', started @ stream_logs w' (fst (logs c)) (snd (logs c))))))"

text \<open>
  The loop itself, over the polls the environment answers: \<open>stop_is_set\<close> is
  \<open>stop_event.is_set()\<close> at the top of the loop, \<open>containers_get\<close> the answer to
  \<open>client.containers.get(self.container_name)\<close>.  The result is the worker at the end
  and the events of each pass, in order.
\<close>

record poll =
  stop_is_set :: bool
  containers_get :: lookup

fun run :: "LogWorker \<Rightarrow> poll list \<Rightarrow> LogWorker \<times> event list list" where
  "run w [] = (w, [])"
| "run w (p # ps) =
     (if stop_is_set p then (w, [])
      else (let (w', es) = run_body w (containers_get p);
                (w'', ess) = run w' ps
            in (w'', es # ess)))"

text \<open>The banners among the events of a worker.\<close>

definition banners :: "LogWorker \<Rightarrow> event list \<Rightarrow> event list" where
  "banners w es = filter (\<lambda>e. e = banner w ''+'' \<or> e = banner w ''-'') es"

text \<open>A poll that finds the container, refreshes it and reads a status.\<close>

definition observes_status :: "poll \<Rightarrow> string option" where
  "observes_status p =
     (if stop_is_set p then None
      else (case containers_get p of
              Found c \<Rightarrow> (case reload c of Some a \<Rightarrow> Some (status a) | None \<Rightarrow> None)
            | _ \<Rightarrow> None))"

definition observes_running :: "poll \<Rightarrow> bool" where
  "observes_running p = (observes_status p = Some ''running'')"

definition observes_not_running :: "poll \<Rightarrow> bool" where
  "observes_not_running p =
     (case observes_status p of Some st \<Rightarrow> st \<noteq> ''running'' | None \<Rightarrow> False)"

subsection \<open>Source matcher: \<open>is_tty_container\<close>, \<open>find_matching_containers\<close>\<close>

text \<open>Python's truth value of \<open>cfg.get(key)\<close>.\<close>

definition truthy :: "bool option \<Rightarrow> bool" where
  "truthy v = (case v of None \<Rightarrow> False | Some b \<Rightarrow> b)"

definition is_tty_container :: "container \<Rightarrow> bool" where
  "is_tty_container c =
     (case reload c of
        None \<Rightarrow> False
      | Some a \<Rightarrow>
          (case Config a of
             None \<Rightarrow> False
           | Some cfg \<Rightarrow> truthy (Tty cfg) \<or> truthy (OpenStdin cfg)))"

text \<open>
  \<open>str.lower()\<close> is Python's builtin, the Unicode lowercase mapping of a whole string.
  What it answers on a string that is not empty is the parameter \<open>str_lower\<close>; the
  empty string has no character to map.
\<close>

definition lower :: "(string \<Rightarrow> string) \<Rightarrow> string \<Rightarrow> string" where
  "lower str_lower s = (if s = [] then [] else str_lower s)"

text \<open>
  \<open>listing\<close> is the answer to \<open>client.containers.list(all=True)\<close>; an exception of that
  call leaves \<open>find_matching_containers\<close> as it is.
\<close>

definition find_matching_containers ::
  "(string \<Rightarrow> string) \<Rightarrow> py_error + container list \<Rightarrow> string \<Rightarrow> bool \<Rightarrow> bool \<Rightarrow> py_error + container list" where
  "find_matching_containers str_lower listing pattern exact include_tty =
     (case listing of
        Inl e \<Rightarrow> Inl e
      | Inr all_containers \<Rightarrow>
          (let matches =
                 (if exact then filter (\<lambda>c. name c = pattern) all_containers
                  else (let p = lower str_lower pattern
                        in filter (\<lambda>c. sublist p (lower str_lower (name c))) all_containers));
               matches = (if \<not> include_tty then filter (\<lambda>c. \<not> is_tty_container c) matches
                          else matches)
           in Inr matches))"

subsection \<open>Worker supervisor: \<open>ensure_workers_for_matches\<close>\<close>

text \<open>
  \<open>active_workers\<close> is a Python dict: an association list, read with \<open>map_of\<close> and
  written with \<open>AList.update\<close>; its values are those of the entries \<open>map_of\<close> can reach.
\<close>

type_synonym workers = "(string \<times> LogWorker) list"

definition dict_values :: "workers \<Rightarrow> LogWorker list" where
  "dict_values active_workers = map snd (AList.clearjunk active_workers)"

definition used_styles_of :: "workers \<Rightarrow> string set" where
  "used_styles_of active_workers = set (map style (filter is_alive (dict_values active_workers)))"

text \<open>Every worker of the dict holds a style of the palette.\<close>

definition palette_styles :: "workers \<Rightarrow> bool" where
  "palette_styles active_workers = list_all (\<lambda>kv. style (snd kv) \<in> set STYLES) active_workers"

text \<open>\<open>name not in active_workers or not active_workers[name].is_alive()\<close>\<close>

definition needs_worker :: "workers \<Rightarrow> string \<Rightarrow> bool" where
  "needs_worker active_workers nm =
     (case map_of active_workers nm of None \<Rightarrow> True | Some w \<Rightarrow> \<not> is_alive w)"

text \<open>
  The constructor call of \<open>ensure_workers_for_matches\<close> followed by \<open>worker.start()\<close>:
  \<open>poll_sleep\<close> has its default, the thread is alive once started.
\<close>

definition new_worker :: "string \<Rightarrow> string \<Rightarrow> string \<Rightarrow> int option \<Rightarrow> LogWorker" where
  "new_worker nm st tail' since' =
     \<lparr>container_name = nm, style = st, tail = tail', since = since', poll_sleep = 0.5,
      attached_running = False, is_alive = True\<rparr>"

text \<open>
  The \<open>for c in matches\<close> loop.  The result is the exception that ended the loop, if
  any, the dict as the loop leaves it, and the workers started, in order.
\<close>

fun start_missing ::
  "(string \<Rightarrow> nat) \<Rightarrow> string \<Rightarrow> int option \<Rightarrow> container list \<Rightarrow> workers \<Rightarrow> string set
     \<Rightarrow> py_error option \<times> workers \<times> LogWorker list" where
  "start_missing sha tail' since' [] active_workers used_styles = (None, active_workers, [])"
| "start_missing sha tail' since' (c # cs) active_workers used_styles =
     (if needs_worker active_workers (name c) then
        (case assign_style sha (name c) used_styles of
           Inl e \<Rightarrow> (Some e, active_workers, [])
         | Inr st \<Rightarrow>
             (let worker = new_worker (name c) st tail' since';
                  (r, active_workers', started) =
                     start_missing sha tail' since' cs (AList.update (name c) worker active_workers)
                       (insert st used_styles)
              in (r, active_workers', worker # started)))
      else start_missing sha tail' since' cs active_workers used_styles)"

definition ensure_workers_for_matches ::
  "(string \<Rightarrow> nat) \<Rightarrow> (string \<Rightarrow> string) \<Rightarrow> py_error + container list \<Rightarrow> string \<Rightarrow> bool \<Rightarrow> string \<Rightarrow> int option \<Rightarrow> bool
     \<Rightarrow> workers \<Rightarrow> py_error option \<times> workers \<times> LogWorker list" where
  "ensure_workers_for_matches sha str_lower listing pattern exact tail' since' include_tty active_workers =
     (case find_matching_containers str_lower listing pattern exact include_tty of
        Inl e \<Rightarrow> (Some e, active_workers, [])
      | Inr matches \<Rightarrow>
          start_missing sha tail' since' matches active_workers (used_styles_of active_workers))"

subsection \<open>The main loop of \<open>logs\<close>\<close>

text \<open>
  One pass through the body of \<open>while not stop_event.is_set()\<close>: \<open>now\<close> is
  \<open>time.time()\<close>, \<open>listing\<close> what the client lists in this pass.  The result is the
  exception leaving the loop, if any, the dict, \<open>last_refresh\<close>, and what the pass did:
  each call of \<open>ensure_workers_for_matches\<close> with the workers it started, and the
  final \<open>time.sleep(0.2)\<close>.
\<close>

datatype loop_event = Reconcile "LogWorker list" | LoopSleep real

definition retry_exact ::
  "(string \<Rightarrow> nat) \<Rightarrow> (string \<Rightarrow> string) \<Rightarrow> py_error + container list \<Rightarrow> string \<Rightarrow> bool \<Rightarrow> string \<Rightarrow> int option \<Rightarrow> bool
     \<Rightarrow> workers \<Rightarrow> real \<Rightarrow> loop_event list
     \<Rightarrow> py_error option \<times> workers \<times> real \<times> loop_event list" where
  "retry_exact sha str_lower listing pattern exact tail' since' include_tty active_workers last_refresh done =
     (if exact \<and> active_workers = [] then
        (case ensure_workers_for_matches sha str_lower listing pattern exact tail' since' include_tty active_workers of
           (Some e, active_workers', started) \<Rightarrow>
             (Some e, active_workers', last_refresh, done @ [Reconcile started])
         | (None, active_workers', started) \<Rightarrow>
             (None, active_workers', last_refresh, done @ [Reconcile started, LoopSleep 0.2]))
      else (None, active_workers, last_refresh, done @ [LoopSleep 0.2]))"

definition main_loop_body ::
  "(string \<Rightarrow> nat) \<Rightarrow> (string \<Rightarrow> string) \<Rightarrow> py_error + container list \<Rightarrow> string \<Rightarrow> bool \<Rightarrow> string \<Rightarrow> int option \<Rightarrow> real
     \<Rightarrow> bool \<Rightarrow> real \<Rightarrow> workers \<Rightarrow> real
     \<Rightarrow> py_error option \<times> workers \<times> real \<times> loop_event list" where
  "main_loop_body sha str_lower listing pattern exact tail' since' refresh include_tty now active_workers last_refresh =
     (if \<not> exact \<and> now - last_refresh \<ge> refresh then
        (case ensure_workers_for_matches sha str_lower listing pattern exact tail' since' include_tty active_workers of
           (Some e, active_workers', started) \<Rightarrow>
             (Some e, active_workers', last_refresh, [Reconcile started])
         | (None, active_workers', started) \<Rightarrow>
             retry_exact sha str_lower listing pattern exact tail' since' include_tty active_workers' now
               [Reconcile started])
      else retry_exact sha str_lower listing pattern exact tail' since' include_tty active_workers last_refresh [])"

definition reconciliations :: "loop_event list \<Rightarrow> nat" where
  "reconciliations evs = length (filter (\<lambda>e. case e of Reconcile ws \<Rightarrow> True | LoopSleep t \<Rightarrow> False) evs)"

text \<open>Whether the dict holds a worker for \<open>nm\<close> whose thread is alive.\<close>

definition alive_worker_for :: "workers \<Rightarrow> string \<Rightarrow> bool" where
  "alive_worker_for active_workers nm =
     (case map_of active_workers nm of None \<Rightarrow> False | Some w \<Rightarrow> is_alive w)"

subsection \<open>Sample inputs\<close>

text \<open>
  The SHA-256 digests of the names \<open>api\<close>, \<open>web\<close> and \<open>x\<close>, read as numbers, for the
  examples: their indices into the palette are 5, 10 and 5.  No example asks for the
  digest of another name.
\<close>

definition sample_sha :: "string \<Rightarrow> nat" where
  "sample_sha nm =
     (if nm = ''api'' then 9389595524090813077829753082865908958104793182731399855887743389142871770233
      else if nm = ''web'' then 34090154376681028593009672179359841970781713992867017422897055753060387624930
      else if nm = ''x'' then 20553885541631119247001227156676802314981306735372789521402284493774173915265
      else 0)"

text \<open>
  A lowercase function for the examples: it maps the ASCII capital letters to the small
  ones and leaves every other character, as \<open>str.lower()\<close> does on ASCII text.
\<close>

definition ascii_lower_char :: "char \<Rightarrow> char" where
  "ascii_lower_char c =
     (case map_of (zip ''ABCDEFGHIJKLMNOPQRSTUVWXYZ'' ''abcdefghijklmnopqrstuvwxyz'') c of
        Some l \<Rightarrow> l
      | None \<Rightarrow> c)"

definition ascii_lower :: "string \<Rightarrow> string" where
  "ascii_lower s = map ascii_lower_char s"

text \<open>
  A worker for \<open>api\<close> as \<open>ensure_workers_for_matches\<close> starts it, the same worker once
  attached, the container \<open>api\<close> as the client reports it when it has exited and when it
  runs (printing one line and one empty line), and the poll that finds a container.
\<close>

definition api_worker :: LogWorker where
  "api_worker = new_worker ''api'' ''bold red'' ''all'' None"

definition api_attached :: LogWorker where
  "api_attached = api_worker\<lparr>attached_running := True\<rparr>"

definition api_exited :: container where
  "api_exited =
     \<lparr>name = ''api'',
      reload = Some \<lparr>status = ''exited'', Config = Some \<lparr>Tty = Some False, OpenStdin = Some False\<rparr>\<rparr>,
      logs = ([], StreamEnds)\<rparr>"

definition api_running :: container where
  "api_running =
     \<lparr>name = ''api'',
      reload = Some \<lparr>status = ''running'', Config = Some \<lparr>Tty = Some False, OpenStdin = Some False\<rparr>\<rparr>,
      logs = ([(False, ''ready'' @ [CHR 0x0A]), (False, [CHR 0x0A])], StreamEnds)\<rparr>"

definition found :: "container \<Rightarrow> poll" where
  "found c = \<lparr>stop_is_set = False, containers_get = Found c\<rparr>"

text \<open>
  More containers: one whose refresh raises, an interactive shell, and \<open>x\<close>, whose
  hashed index is that of \<open>api\<close>.  More workers: the worker for \<open>api\<close> with its thread
  ended, a live worker for \<open>db\<close> holding \<open>cyan\<close>, and the worker
  \<open>ensure_workers_for_matches\<close> starts for \<open>x\<close> when \<open>bold red\<close> and \<open>cyan\<close> are in use.
  \<open>sample_workers\<close> is a dict with the live \<open>db\<close> and the dead \<open>api\<close>;
  \<open>sample_listing\<close> is a client that lists \<open>api\<close> and \<open>x\<close>, and not \<open>db\<close>.
\<close>

definition api_unreadable :: container where
  "api_unreadable = \<lparr>name = ''Api'', reload = None, logs = ([], StreamEnds)\<rparr>"

definition shell_tty :: container where
  "shell_tty =
     \<lparr>name = ''shell'',
      reload = Some \<lparr>status = ''running'', Config = Some \<lparr>Tty = Some True, OpenStdin = None\<rparr>\<rparr>,
      logs = ([], StreamEnds)\<rparr>"

definition api_dead :: LogWorker where
  "api_dead = api_worker\<lparr>is_alive := False\<rparr>"

definition x_running :: container where
  "x_running =
     \<lparr>name = ''x'',
      reload = Some \<lparr>status = ''running'', Config = Some \<lparr>Tty = None, OpenStdin = None\<rparr>\<rparr>,
      logs = ([], StreamEnds)\<rparr>"

definition db_worker :: LogWorker where
  "db_worker = new_worker ''db'' ''cyan'' ''all'' None"

definition x_worker :: LogWorker where
  "x_worker = new_worker ''x'' ''magenta'' ''all'' None"

definition sample_workers :: workers where
  "sample_workers = [(''db'', db_worker), (''api'', api_dead)]"

definition sample_listing :: "py_error + container list" where
  "sample_listing = Inr [api_running, x_running]"

section \<open>Properties\<close>

subsection \<open>The palette and the circular scan\<close>

lemma length_STYLES: "length STYLES = 18"
  by (simp add: STYLES_def)

lemma distinct_STYLES: "distinct STYLES"
  by (simp add: STYLES_def)

lemma hashed_index_less: "hashed_index sha nm < length STYLES"
  by (simp add: hashed_index_def length_STYLES)

lemma getitem_STYLES_mod:
  "getitem STYLES (k mod length STYLES) = Inr (STYLES ! (k mod length STYLES))"
  by (simp add: getitem_def length_STYLES)

lemma scan_palette_None:
  "scan_palette start used offs = Inr None \<longleftrightarrow>
     (\<forall>off \<in> set offs. STYLES ! ((start + off) mod length STYLES) \<in> used)"
  by (induction offs) (auto simp: getitem_STYLES_mod)

lemma scan_palette_not_Inl: "scan_palette start used offs \<noteq> Inl e"
  by (induction offs) (auto simp: getitem_STYLES_mod)

lemma scan_palette_Some:
  "scan_palette start used offs = Inr (Some c) \<longleftrightarrow>
     (\<exists>pre off post. offs = pre @ off # post \<and>
        c = STYLES ! ((start + off) mod length STYLES) \<and> c \<notin> used \<and>
        (\<forall>k \<in> set pre. STYLES ! ((start + k) mod length STYLES) \<in> used))"
proof (induction offs)
  case Nil
  then show ?case by simp
next
  case (Cons a offs)
  show ?case
  proof (cases "STYLES ! ((start + a) mod length STYLES) \<in> used")
    case True
    then have "scan_palette start used (a # offs) = scan_palette start used offs"
      by (simp add: getitem_STYLES_mod)
    moreover have "(\<exists>pre off post. a # offs = pre @ off # post \<and>
        c = STYLES ! ((start + off) mod length STYLES) \<and> c \<notin> used \<and>
        (\<forall>k \<in> set pre. STYLES ! ((start + k) mod length STYLES) \<in> used))
      \<longleftrightarrow> (\<exists>pre off post. offs = pre @ off # post \<and>
        c = STYLES ! ((start + off) mod length STYLES) \<and> c \<notin> used \<and>
        (\<forall>k \<in> set pre. STYLES ! ((start + k) mod length STYLES) \<in> used))"
      (is "?L \<longleftrightarrow> ?R")
    proof
      assume ?L
      then obtain pre off post where h: "a # offs = pre @ off # post"
        "c = STYLES ! ((start + off) mod length STYLES)" "c \<notin> used"
        "\<forall>k \<in> set pre. STYLES ! ((start + k) mod length STYLES) \<in> used" by blast
      with True have "pre \<noteq> []" by (cases pre) auto
      then obtain pre' where "pre = a # pre'" using h(1) by (cases pre) auto
      with h show ?R by auto
    next
      assume ?R
      then obtain pre off post where h: "offs = pre @ off # post"
        "c = STYLES ! ((start + off) mod length STYLES)" "c \<notin> used"
        "\<forall>k \<in> set pre. STYLES ! ((start + k) mod length STYLES) \<in> used" by blast
      then have "a # offs = (a # pre) @ off # post" by simp
      with h True show ?L by (metis set_ConsD)
    qed
    ultimately show ?thesis using Cons.IH by simp
  next
    case False
    then have "scan_palette start used (a # offs) = Inr (Some (STYLES ! ((start + a) mod length STYLES)))"
      by (simp add: getitem_STYLES_mod)
    moreover have "(\<exists>pre off post. a # offs = pre @ off # post \<and>
        c = STYLES ! ((start + off) mod length STYLES) \<and> c \<notin> used \<and>
        (\<forall>k \<in> set pre. STYLES ! ((start + k) mod length STYLES) \<in> used))
      \<longleftrightarrow> c = STYLES ! ((start + a) mod length STYLES)"
      (is "?L \<longleftrightarrow> ?R")
    proof
      assume ?L
      then obtain pre off post where h: "a # offs = pre @ off # post"
        "c = STYLES ! ((start + off) mod length STYLES)" "c \<notin> used"
        "\<forall>k \<in> set pre. STYLES ! ((start + k) mod length STYLES) \<in> used" by blast
      with False have "pre = []" by (cases pre) auto
      with h show ?R by simp
    next
      assume ?R
      with False have "a # offs = [] @ a # offs \<and> c = STYLES ! ((start + a) mod length STYLES) \<and> c \<notin> used \<and>
        (\<forall>k \<in> set []. STYLES ! ((start + k) mod length STYLES) \<in> used)" by simp
      then show ?L by blast
    qed
    ultimately show ?thesis by auto
  qed
qed

lemma circular_cover:
  assumes "i < n"
  shows "\<exists>off < n. (start + off) mod n = (i::nat)"
proof -
  let ?off = "(i + (n - start mod n)) mod n"
  have "?off < n" using assms by simp
  moreover have "(start + ?off) mod n = i"
  proof -
    have "(start + ?off) mod n = (start mod n + (i + (n - start mod n))) mod n"
      by (simp add: mod_simps)
    also have "start mod n + (i + (n - start mod n)) = i + n"
    proof -
      have "start mod n < n" using assms by simp
      then show ?thesis by arith
    qed
    also have "(i + n) mod n = i" using assms by simp
    finally show ?thesis .
  qed
  ultimately show ?thesis by blast
qed

lemma upt_split_prefix:
  assumes "[0..<n] = pre @ off # post"
  shows "off < n \<and> set pre = {..<off}"
proof -
  have l: "length pre < n" using arg_cong[OF assms, of length] by simp
  have "[0..<n] ! length pre = off" using assms by (simp add: nth_append)
  then have o: "off = length pre" using l by simp
  have "take (length pre) [0..<n] = pre" using assms by simp
  then have "pre = [0..<length pre]" using l by (simp add: take_upt)
  then have "set pre = {..<length pre}" by (metis atLeast_upt)
  with o l show ?thesis by simp
qed

lemma palette_exhausted:
  assumes "\<forall>off < length STYLES. STYLES ! ((start + off) mod length STYLES) \<in> used"
  shows "set STYLES \<subseteq> used"
proof
  fix s assume "s \<in> set STYLES"
  then obtain i where i: "i < length STYLES" "s = STYLES ! i"
    by (auto simp: in_set_conv_nth)
  from circular_cover[OF i(1), of start] obtain off where
    "off < length STYLES" "(start + off) mod length STYLES = i" by blast
  with assms i show "s \<in> used" by auto
qed

lemma hashed_index_api: "hashed_index sample_sha ''api'' = 5"
  by (simp add: hashed_index_def sample_sha_def length_STYLES)

lemma assign_style_exhausted:
  assumes "set STYLES \<subseteq> used"
  shows "assign_style sha nm used = Inr (STYLES ! hashed_index sha nm)"
proof -
  have "\<forall>off \<in> set [0..<length STYLES]. STYLES ! ((hashed_index sha nm + off) mod length STYLES) \<in> used"
    using assms by (auto simp: length_STYLES)
  then have "scan_palette (hashed_index sha nm) used [0..<length STYLES] = Inr None"
    unfolding scan_palette_None .
  then show ?thesis
    using hashed_index_less[of sha nm] by (simp add: assign_style_def getitem_def)
qed

lemma assign_style_free:
  assumes "\<not> set STYLES \<subseteq> used"
  shows "\<exists>st. assign_style sha nm used = Inr st \<and> st \<in> set STYLES \<and> st \<notin> used"
proof -
  let ?start = "hashed_index sha nm"
  have "scan_palette ?start used [0..<length STYLES] \<noteq> Inr None"
    using palette_exhausted[of ?start used] assms by (auto simp: scan_palette_None)
  then obtain c where c: "scan_palette ?start used [0..<length STYLES] = Inr (Some c)"
    using scan_palette_not_Inl[of ?start used "[0..<length STYLES]"]
    by (cases "scan_palette ?start used [0..<length STYLES]") auto
  then obtain pre off post where h: "[0..<length STYLES] = pre @ off # post"
    "c = STYLES ! ((?start + off) mod length STYLES)" "c \<notin> used"
    unfolding scan_palette_Some by blast
  have "c \<in> set STYLES" using h(2) by (simp add: length_STYLES)
  moreover have "assign_style sha nm used = Inr c" using c by (simp add: assign_style_def)
  ultimately show ?thesis using h by auto
qed

lemma assign_style_total: "\<exists>st. assign_style sha nm used = Inr st \<and> st \<in> set STYLES"
proof (cases "set STYLES \<subseteq> used")
  case True
  then show ?thesis using assign_style_exhausted[OF True, of sha nm] hashed_index_less[of sha nm]
    by simp
next
  case False
  then show ?thesis using assign_style_free[OF False, of sha nm] by blast
qed

subsection \<open>Identity assigner\<close>

text \<open>
  C2.  When fewer styles are in use than the palette has, \<open>assign_style\<close> returns the
  first style of the circular scan from the hashed index that is not in use: the style
  at some offset, not in \<open>used\<close>, with every style at a smaller offset in \<open>used\<close>.
  A Python set is finite.
\<close>

theorem assign_style_first_free:
  assumes "finite used" and "card used < length STYLES"
  shows "\<exists>off < length STYLES.
           assign_style sha nm used =
             Inr (STYLES ! ((hashed_index sha nm + off) mod length STYLES)) \<and>
           STYLES ! ((hashed_index sha nm + off) mod length STYLES) \<notin> used \<and>
           (\<forall>k < off. STYLES ! ((hashed_index sha nm + k) mod length STYLES) \<in> used)"
proof -
  let ?start = "hashed_index sha nm"
  have "\<not> set STYLES \<subseteq> used"
  proof
    assume "set STYLES \<subseteq> used"
    then have "card (set STYLES) \<le> card used" using assms(1) by (rule card_mono[rotated])
    then show False using assms(2) distinct_STYLES by (simp add: distinct_card)
  qed
  then have "scan_palette ?start used [0..<length STYLES] \<noteq> Inr None"
    using palette_exhausted[of ?start used] by (auto simp: scan_palette_None)
  then obtain c where c: "scan_palette ?start used [0..<length STYLES] = Inr (Some c)"
    using scan_palette_not_Inl[of ?start used "[0..<length STYLES]"]
    by (cases "scan_palette ?start used [0..<length STYLES]") auto
  then obtain pre off post where h: "[0..<length STYLES] = pre @ off # post"
    "c = STYLES ! ((?start + off) mod length STYLES)" "c \<notin> used"
    "\<forall>k \<in> set pre. STYLES ! ((?start + k) mod length STYLES) \<in> used"
    unfolding scan_palette_Some by blast
  from upt_split_prefix[OF h(1)] have "off < length STYLES" "set pre = {..<off}" by auto
  moreover have "assign_style sha nm used = Inr c" using c by (simp add: assign_style_def)
  ultimately show ?thesis using h by auto
qed

theorem assign_style_first_free_witness:
  "finite {''bold red'', ''cyan''} \<and> card {''bold red'', ''cyan''} < length STYLES \<and>
   (\<exists>off<length STYLES.
           assign_style sample_sha ''api'' {''bold red'', ''cyan''} =
             Inr (STYLES ! ((hashed_index sample_sha ''api'' + off) mod length STYLES)) \<and>
           STYLES ! ((hashed_index sample_sha ''api'' + off) mod length STYLES) \<notin> {''bold red'', ''cyan''} \<and>
           (\<forall>k < off. STYLES ! ((hashed_index sample_sha ''api'' + k) mod length STYLES) \<in> {''bold red'', ''cyan''}))"
  using assign_style_first_free[of "{''bold red'', ''cyan''}" sample_sha "''api''"]
  by (simp add: length_STYLES)

subsection \<open>Tail worker\<close>

lemma banners_update [simp]: "banners (w\<lparr>attached_running := b\<rparr>) = banners w"
  by (simp add: banners_def banner_def fun_eq_iff)

lemma banners_stream_logs: "banners w (stream_logs w' chunks fin) = []"
  by (induction w' chunks fin rule: stream_logs.induct)
     (simp_all add: banners_def banner_def Let_def)

lemma banners_append: "banners w (xs @ ys) = banners w xs @ banners w ys"
  by (simp add: banners_def)

lemma banners_plus: "banners w [banner w ''+''] = [banner w ''+'']"
  by (simp add: banners_def)

lemma banners_minus_sleep: "banners w [banner w ''-'', Sleep t] = [banner w ''-'']"
  by (simp add: banners_def banner_def)

lemma banners_sleep: "banners w [Sleep t] = []"
  by (simp add: banners_def banner_def)

lemma run_body_not_running:
  assumes "observes_not_running p"
  shows "run_body w (containers_get p) =
           (if attached_running w
            then (w\<lparr>attached_running := False\<rparr>, [banner w ''-'', Sleep (poll_sleep w)])
            else (w, [Sleep (poll_sleep w)]))"
  using assms
  by (auto simp: observes_not_running_def observes_status_def run_body_def
           split: if_splits lookup.splits option.splits)

lemma run_body_running:
  assumes "observes_running p"
  shows "fst (run_body w (containers_get p)) = w\<lparr>attached_running := True\<rparr> \<and>
         banners w (snd (run_body w (containers_get p))) =
           (if attached_running w then [] else [banner w ''+''])"
proof -
  from assms obtain c a where h: "containers_get p = Found c" "reload c = Some a"
    "status a = ''running''"
    by (auto simp: observes_running_def observes_status_def
             split: if_splits lookup.splits option.splits)
  show ?thesis
  proof (cases "attached_running w")
    case True
    then have "run_body w (containers_get p) = (w, stream_logs w (fst (logs c)) (snd (logs c)))"
      using h by (simp add: run_body_def)
    then show ?thesis using True by (simp add: banners_stream_logs)
  next
    case False
    then have "run_body w (containers_get p) =
        (w\<lparr>attached_running := True\<rparr>,
         [banner w ''+''] @ stream_logs (w\<lparr>attached_running := True\<rparr>) (fst (logs c)) (snd (logs c)))"
      using h by (simp add: run_body_def)
    then show ?thesis using False
      by (simp only: fst_conv snd_conv banners_append banners_plus banners_stream_logs) simp
  qed
qed

lemma not_stop_running: "observes_running p \<Longrightarrow> \<not> stop_is_set p"
  by (auto simp: observes_running_def observes_status_def split: if_splits)

lemma not_stop_not_running: "observes_not_running p \<Longrightarrow> \<not> stop_is_set p"
  by (auto simp: observes_not_running_def observes_status_def split: if_splits)

lemma run_append:
  assumes "\<forall>p \<in> set ps. \<not> stop_is_set p"
  shows "run w (ps @ qs) =
           (fst (run (fst (run w ps)) qs), snd (run w ps) @ snd (run (fst (run w ps)) qs))"
  using assms
  by (induction ps arbitrary: w) (auto simp: split_beta Let_def)

lemma run_stopped_quiet:
  assumes "\<not> attached_running w" and "\<forall>p \<in> set ps. observes_not_running p"
  shows "run w ps = (w, replicate (length ps) [Sleep (poll_sleep w)])"
  using assms
  by (induction ps) (auto simp: run_body_not_running not_stop_not_running)

lemma run_attached_quiet:
  assumes "attached_running w" and "\<forall>p \<in> set ps. observes_running p"
  shows "fst (run w ps) = w \<and> map (banners w) (snd (run w ps)) = replicate (length ps) []"
  using assms
proof (induction ps)
  case Nil
  then show ?case by simp
next
  case (Cons p ps)
  then have r: "observes_running p" by simp
  have "w\<lparr>attached_running := True\<rparr> = w" using Cons.prems(1) by simp
  with run_body_running[OF r, of w] Cons.prems(1)
  have "fst (run_body w (containers_get p)) = w"
       "banners w (snd (run_body w (containers_get p))) = []" by auto
  with Cons not_stop_running[OF r] show ?case by (auto simp: split_beta Let_def)
qed

text \<open>
  C1.  A worker that is not attached and whose polls read a status other than
  \<open>running\<close> (the polls \<open>ps1\<close>), then \<open>running\<close> (\<open>ps2\<close>), then again another status
  (\<open>ps3\<close>) prints, pass by pass: nothing during \<open>ps1\<close>, the \<open>+\<close> banner in the first
  pass of \<open>ps2\<close> and nothing in its other passes, the \<open>-\<close> banner in the first pass of
  \<open>ps3\<close> and nothing in its other passes.  It ends not attached.
\<close>

theorem banner_once_per_transition:
  assumes "\<not> attached_running w"
    and "\<forall>p \<in> set ps1. observes_not_running p"
    and "ps2 \<noteq> []" and "\<forall>p \<in> set ps2. observes_running p"
    and "ps3 \<noteq> []" and "\<forall>p \<in> set ps3. observes_not_running p"
  shows "map (banners w) (snd (run w (ps1 @ ps2 @ ps3))) =
           replicate (length ps1) [] @
           [banner w ''+''] # replicate (length ps2 - 1) [] @
           [banner w ''-''] # replicate (length ps3 - 1) [] \<and>
         \<not> attached_running (fst (run w (ps1 @ ps2 @ ps3)))"
proof -
  obtain p2 qs2 where ps2: "ps2 = p2 # qs2" using assms(3) by (cases ps2) auto
  obtain p3 qs3 where ps3: "ps3 = p3 # qs3" using assms(5) by (cases ps3) auto
  let ?wa = "w\<lparr>attached_running := True\<rparr>"
  let ?ws = "?wa\<lparr>attached_running := False\<rparr>"
  have ns1: "\<forall>p \<in> set ps1. \<not> stop_is_set p" using assms(2) not_stop_not_running by blast
  have ns2: "\<forall>p \<in> set ps2. \<not> stop_is_set p" using assms(4) not_stop_running by blast
  have r2: "observes_running p2" "\<forall>p \<in> set qs2. observes_running p"
    using assms(4) ps2 by auto
  have r3: "observes_not_running p3" "\<forall>p \<in> set qs3. observes_not_running p"
    using assms(6) ps3 by auto
  \<comment> \<open>the polls before the container runs\<close>
  have s1: "run w ps1 = (w, replicate (length ps1) [Sleep (poll_sleep w)])"
    using run_stopped_quiet[OF assms(1,2)] .
  \<comment> \<open>the polls while it runs\<close>
  have b2: "fst (run_body w (containers_get p2)) = ?wa"
    "banners w (snd (run_body w (containers_get p2))) = [banner w ''+'']"
    using run_body_running[OF r2(1), of w] assms(1) by auto
  have q2: "fst (run ?wa qs2) = ?wa"
    "map (banners w) (snd (run ?wa qs2)) = replicate (length qs2) []"
    using run_attached_quiet[of ?wa qs2] r2(2) by auto
  have s2: "fst (run w ps2) = ?wa"
    "map (banners w) (snd (run w ps2)) = [banner w ''+''] # replicate (length qs2) []"
    using b2 q2 not_stop_running[OF r2(1)] by (auto simp: ps2 split_beta Let_def)
  \<comment> \<open>the polls after it has stopped\<close>
  have b3: "run_body ?wa (containers_get p3) = (?ws, [banner w ''-'', Sleep (poll_sleep w)])"
    using run_body_not_running[OF r3(1), of ?wa] by (simp add: banner_def)
  have q3: "run ?ws qs3 = (?ws, replicate (length qs3) [Sleep (poll_sleep w)])"
    using run_stopped_quiet[of ?ws qs3] r3(2) by simp
  have s3: "fst (run ?wa ps3) = ?ws"
    "map (banners w) (snd (run ?wa ps3)) = [banner w ''-''] # replicate (length qs3) []"
    using b3 q3 not_stop_not_running[OF r3(1)]
    by (auto simp: ps3 banners_minus_sleep banners_sleep)
  have "run w (ps1 @ ps2 @ ps3) =
          (fst (run ?wa ps3), snd (run w ps1) @ snd (run w ps2) @ snd (run ?wa ps3))"
    using run_append[OF ns1, of w "ps2 @ ps3"] run_append[OF ns2, of w ps3] s1 s2(1)
    by simp
  then show ?thesis
    using s1 s2 s3 by (simp add: banners_sleep ps2 ps3)
qed

theorem banner_once_per_transition_witness:
  "\<not> attached_running api_worker \<and>
   observes_not_running (found api_exited) \<and>
   observes_running (found api_running) \<and>
   map (banners api_worker)
     (snd (run api_worker ([found api_exited] @ [found api_running, found api_running] @
                           [found api_exited, found api_exited]))) =
     [[], [Print ''+ api'' ''bold red''], [], [Print ''- api'' ''bold red''], []]"
  using banner_once_per_transition[of api_worker "[found api_exited]"
          "[found api_running, found api_running]" "[found api_exited, found api_exited]"]
  by (simp add: api_worker_def new_worker_def found_def api_exited_def api_running_def
        observes_running_def observes_not_running_def observes_status_def banner_def)

text \<open>
  C4, as stated, fails for a lookup error other than \<open>NotFound\<close>: the second \<open>except\<close>
  clause of \<open>run\<close> only sleeps.  An attached worker whose lookup raises such an error
  prints no \<open>-\<close> banner and stays attached.
\<close>

theorem lookup_error_counterexample:
  "attached_running api_attached \<and>
   run_body api_attached LookupException = (api_attached, [Sleep 0.5]) \<and>
   banner api_attached ''-'' \<notin> set (snd (run_body api_attached LookupException)) \<and>
   attached_running (fst (run_body api_attached LookupException))"
  by (simp add: api_attached_def api_worker_def new_worker_def run_body_def banner_def)

text \<open>
  C4, amended.  In a pass that the stop event does not end: when the lookup raises
  \<open>NotFound\<close>, the worker prints the \<open>-\<close> banner if it was attached, is not attached
  afterwards, sleeps \<open>poll_sleep\<close> and goes on with the next poll; when the lookup raises
  another exception, the worker prints nothing, keeps its attached flag, sleeps
  \<open>poll_sleep\<close> and goes on with the next poll.
\<close>

theorem lookup_failure_retries:
  assumes "\<not> stop_is_set p"
  shows "(containers_get p = NotFound \<longrightarrow>
            run w (p # ps) =
              (fst (run (w\<lparr>attached_running := False\<rparr>) ps),
               ((if attached_running w then [banner w ''-''] else []) @ [Sleep (poll_sleep w)]) #
               snd (run (w\<lparr>attached_running := False\<rparr>) ps))) \<and>
         (containers_get p = LookupException \<longrightarrow>
            run w (p # ps) = (fst (run w ps), [Sleep (poll_sleep w)] # snd (run w ps)))"
proof (cases "attached_running w")
  case True
  then show ?thesis using assms by (simp add: run_body_def split_beta)
next
  case False
  then have same: "w\<lparr>attached_running := False\<rparr> = w" by simp
  show ?thesis using assms False by (simp add: run_body_def split_beta same)
qed

theorem lookup_failure_retries_witness:
  "\<not> stop_is_set \<lparr>stop_is_set = False, containers_get = NotFound\<rparr> \<and>
   run api_attached [\<lparr>stop_is_set = False, containers_get = NotFound\<rparr>,
                     \<lparr>stop_is_set = False, containers_get = LookupException\<rparr>] =
     (api_worker, [[Print ''- api'' ''bold red'', Sleep 0.5], [Sleep 0.5]]) \<and>
   run api_attached [\<lparr>stop_is_set = False, containers_get = LookupException\<rparr>] =
     (api_attached, [[Sleep 0.5]])"
  using lookup_failure_retries[of "\<lparr>stop_is_set = False, containers_get = NotFound\<rparr>" api_attached
          "[\<lparr>stop_is_set = False, containers_get = LookupException\<rparr>]"]
        lookup_failure_retries[of "\<lparr>stop_is_set = False, containers_get = LookupException\<rparr>" api_attached "[]"]
  by (simp add: api_attached_def api_worker_def new_worker_def run_body_def banner_def)

subsection \<open>Source matcher\<close>

lemma lower_Nil: "lower str_lower [] = []"
  by (simp add: lower_def)

text \<open>
  C10.  In substring mode the empty pattern matches every listed container:
  \<open>find_matching_containers\<close> returns the whole listing when interactive containers
  are included, and the listing without the interactive ones otherwise.
\<close>

theorem empty_pattern_matches_all:
  "find_matching_containers str_lower (Inr cs) [] False include_tty =
     Inr (if include_tty then cs else filter (\<lambda>c. \<not> is_tty_container c) cs)"
  by (simp add: find_matching_containers_def lower_Nil)

theorem empty_pattern_matches_all_witness:
  "find_matching_containers ascii_lower (Inr [shell_tty, api_unreadable]) [] False True = Inr [shell_tty, api_unreadable] \<and>
   find_matching_containers ascii_lower (Inr [shell_tty, api_unreadable]) [] False False = Inr [api_unreadable]"
  using empty_pattern_matches_all[of ascii_lower "[shell_tty, api_unreadable]" True]
        empty_pattern_matches_all[of ascii_lower "[shell_tty, api_unreadable]" False]
  by (simp add: api_unreadable_def shell_tty_def is_tty_container_def truthy_def)

text \<open>
  C8.  A container whose refresh raises is not classified as interactive, so it is in
  the result of \<open>find_matching_containers\<close> whenever it is listed and its name matches,
  whether interactive containers are excluded or not.
\<close>

theorem failed_refresh_is_included:
  assumes "reload c = None"
  shows "\<not> is_tty_container c \<and>
         (c \<in> set cs \<and> (if exact then name c = pattern
                          else sublist (lower str_lower pattern) (lower str_lower (name c)))
          \<longrightarrow> (\<exists>ms. find_matching_containers str_lower (Inr cs) pattern exact include_tty = Inr ms \<and> c \<in> set ms))"
  using assms by (auto simp: is_tty_container_def find_matching_containers_def Let_def)

theorem failed_refresh_is_included_witness:
  "reload api_unreadable = None \<and> \<not> is_tty_container api_unreadable \<and>
   is_tty_container shell_tty \<and>
   find_matching_containers ascii_lower (Inr [shell_tty, api_unreadable]) ''P'' False False = Inr [api_unreadable]"
  using failed_refresh_is_included[where c = api_unreadable and cs = "[shell_tty, api_unreadable]"
          and exact = False and pattern = "''P''" and str_lower = ascii_lower and include_tty = False]
  by (simp add: api_unreadable_def shell_tty_def find_matching_containers_def is_tty_container_def
        truthy_def lower_def ascii_lower_def ascii_lower_char_def Let_def sublist_code)

subsection \<open>Worker supervisor\<close>

lemma start_missing_needed:
  assumes "needs_worker aw (name c)" and "assign_style sha (name c) U = Inr st"
  shows "start_missing sha t s (c # cs) aw U =
           (fst (start_missing sha t s cs (AList.update (name c) (new_worker (name c) st t s) aw) (insert st U)),
            fst (snd (start_missing sha t s cs (AList.update (name c) (new_worker (name c) st t s) aw) (insert st U))),
            new_worker (name c) st t s #
            snd (snd (start_missing sha t s cs (AList.update (name c) (new_worker (name c) st t s) aw) (insert st U))))"
  using assms by (simp add: split_beta Let_def)

lemma start_missing_skip:
  assumes "\<not> needs_worker aw (name c)"
  shows "start_missing sha t s (c # cs) aw U = start_missing sha t s cs aw U"
  using assms by simp

lemma needs_worker_update:
  "needs_worker (AList.update k (new_worker k st t s) aw) nm \<longleftrightarrow> nm \<noteq> k \<and> needs_worker aw nm"
  by (simp add: needs_worker_def update_conv' new_worker_def)

lemma start_missing_never_raises: "fst (start_missing sha t s cs aw U) = None"
proof (induction cs arbitrary: aw U)
  case Nil
  then show ?case by simp
next
  case (Cons c cs)
  show ?case
  proof (cases "needs_worker aw (name c)")
    case True
    obtain st where st: "assign_style sha (name c) U = Inr st"
      using assign_style_total[of sha "name c" U] by blast
    show ?thesis unfolding start_missing_needed[OF True st] using Cons.IH by simp
  next
    case False
    show ?thesis unfolding start_missing_skip[OF False] using Cons.IH by simp
  qed
qed

lemma start_missing_keeps_alive:
  assumes "map_of aw nm = Some w" and "is_alive w"
  shows "map_of (fst (snd (start_missing sha t s cs aw U))) nm = Some w"
  using assms
proof (induction cs arbitrary: aw U)
  case Nil
  then show ?case by simp
next
  case (Cons c cs)
  show ?case
  proof (cases "needs_worker aw (name c)")
    case True
    obtain st where st: "assign_style sha (name c) U = Inr st"
      using assign_style_total[of sha "name c" U] by blast
    from True Cons.prems have "nm \<noteq> name c" by (auto simp: needs_worker_def)
    then have "map_of (AList.update (name c) (new_worker (name c) st t s) aw) nm = Some w"
      using Cons.prems(1) by (simp add: update_conv')
    from Cons.IH[OF this Cons.prems(2)] show ?thesis
      unfolding start_missing_needed[OF True st] by simp
  next
    case False
    show ?thesis unfolding start_missing_skip[OF False] using Cons.IH[OF Cons.prems] .
  qed
qed

lemma not_needs_worker_iff:
  "\<not> needs_worker aw nm \<longleftrightarrow> (\<exists>w. map_of aw nm = Some w \<and> is_alive w)"
  by (auto simp: needs_worker_def split: option.splits)

lemma start_missing_keeps_served:
  assumes "\<not> needs_worker aw nm"
  shows "\<not> needs_worker (fst (snd (start_missing sha t s cs aw U))) nm"
  using assms start_missing_keeps_alive unfolding not_needs_worker_iff by blast

lemma start_missing_serves_all:
  assumes "c \<in> set cs"
  shows "\<not> needs_worker (fst (snd (start_missing sha t s cs aw U))) (name c)"
  using assms
proof (induction cs arbitrary: aw U)
  case Nil
  then show ?case by simp
next
  case (Cons d cs)
  show ?case
  proof (cases "needs_worker aw (name d)")
    case True
    obtain st where st: "assign_style sha (name d) U = Inr st"
      using assign_style_total[of sha "name d" U] by blast
    let ?aw = "AList.update (name d) (new_worker (name d) st t s) aw"
    show ?thesis
    proof (cases "c \<in> set cs")
      case True
      then show ?thesis unfolding start_missing_needed[OF \<open>needs_worker aw (name d)\<close> st]
        using Cons.IH by simp
    next
      case False
      then have "c = d" using Cons.prems by simp
      moreover have "\<not> needs_worker ?aw (name d)" by (simp add: needs_worker_update)
      ultimately show ?thesis unfolding start_missing_needed[OF True st]
        using start_missing_keeps_served[of ?aw "name d"] by simp
    qed
  next
    case False
    show ?thesis
    proof (cases "c \<in> set cs")
      case True
      then show ?thesis unfolding start_missing_skip[OF False] using Cons.IH by simp
    next
      case nin: False
      then have "c = d" using Cons.prems by simp
      then show ?thesis unfolding start_missing_skip[OF False]
        using start_missing_keeps_served[OF False] by simp
    qed
  qed
qed

lemma start_missing_all_served:
  assumes "\<forall>c \<in> set cs. \<not> needs_worker aw (name c)"
  shows "start_missing sha t s cs aw U = (None, aw, [])"
  using assms by (induction cs arbitrary: U) simp_all

lemma start_missing_changes:
  assumes "map_of (fst (snd (start_missing sha t s cs aw U))) nm \<noteq> map_of aw nm"
  shows "\<exists>w \<in> set (snd (snd (start_missing sha t s cs aw U))).
           map_of (fst (snd (start_missing sha t s cs aw U))) nm = Some w \<and>
           is_alive w \<and> needs_worker aw nm \<and> nm \<in> name ` set cs"
  using assms
proof (induction cs arbitrary: aw U)
  case Nil
  then show ?case by simp
next
  case (Cons c cs)
  show ?case
  proof (cases "needs_worker aw (name c)")
    case True
    obtain st where st: "assign_style sha (name c) U = Inr st"
      using assign_style_total[of sha "name c" U] by blast
    let ?w = "new_worker (name c) st t s"
    let ?aw = "AList.update (name c) ?w aw"
    let ?res = "start_missing sha t s cs ?aw (insert st U)"
    have eq: "start_missing sha t s (c # cs) aw U = (fst ?res, fst (snd ?res), ?w # snd (snd ?res))"
      using start_missing_needed[OF True st] .
    show ?thesis
    proof (cases "map_of (fst (snd ?res)) nm = map_of ?aw nm")
      case same: True
      with Cons.prems eq have "map_of ?aw nm \<noteq> map_of aw nm" by simp
      then have nm: "nm = name c" by (auto simp: update_conv' split: if_splits)
      then have "map_of (fst (snd ?res)) nm = Some ?w" using same by (simp add: update_conv')
      moreover have "is_alive ?w" by (simp add: new_worker_def)
      ultimately show ?thesis using eq nm True by simp
    next
      case False
      from Cons.IH[OF False] obtain w where w: "w \<in> set (snd (snd ?res))"
        "map_of (fst (snd ?res)) nm = Some w" "is_alive w" "needs_worker ?aw nm"
        "nm \<in> name ` set cs" by blast
      then have "needs_worker aw nm" by (simp add: needs_worker_update)
      moreover have "nm \<in> name ` set (c # cs)" using w(5) by auto
      ultimately show ?thesis unfolding eq using w(1,2,3) by auto
    qed
  next
    case False
    have "nm \<in> name ` set (c # cs)" if "nm \<in> name ` set cs" using that by auto
    then show ?thesis using Cons.prems Cons.IH[of aw U] unfolding start_missing_skip[OF False]
      by blast
  qed
qed

lemma start_missing_fresh_style:
  assumes "snd (snd (start_missing sha t s cs aw U)) = pre @ w # post"
    and "\<not> set STYLES \<subseteq> U \<union> style ` set pre"
  shows "style w \<in> set STYLES \<and> style w \<notin> U \<union> style ` set pre"
  using assms
proof (induction cs arbitrary: aw U pre)
  case Nil
  then show ?case by simp
next
  case (Cons c cs)
  show ?case
  proof (cases "needs_worker aw (name c)")
    case True
    obtain st where st: "assign_style sha (name c) U = Inr st"
      using assign_style_total[of sha "name c" U] by blast
    let ?w = "new_worker (name c) st t s"
    let ?aw = "AList.update (name c) ?w aw"
    let ?res = "start_missing sha t s cs ?aw (insert st U)"
    have eq: "?w # snd (snd ?res) = pre @ w # post"
      using Cons.prems(1) unfolding start_missing_needed[OF True st] by simp
    have stw: "style ?w = st" by (simp add: new_worker_def)
    show ?thesis
    proof (cases pre)
      case Nil
      then have "w = ?w" using eq by simp
      moreover have "\<not> set STYLES \<subseteq> U" using Cons.prems(2) Nil by simp
      from assign_style_free[OF this, of sha "name c"] st
      have "st \<in> set STYLES \<and> st \<notin> U" by auto
      ultimately show ?thesis using Nil stw by simp
    next
      case (Cons v pre')
      then have v: "v = ?w" and rest: "snd (snd ?res) = pre' @ w # post" using eq by auto
      have U: "insert st U \<union> style ` set pre' = U \<union> style ` set pre"
        using Cons v stw by auto
      from Cons.IH[OF rest] Cons.prems(2) show ?thesis unfolding U by simp
    qed
  next
    case False
    show ?thesis using Cons.prems Cons.IH[of aw U pre] unfolding start_missing_skip[OF False] by simp
  qed
qed

subsection \<open>The styles in use are palette styles\<close>

text \<open>
  \<open>assign_style\<close> returns palette styles only, \<open>ensure_workers_for_matches\<close> gives a
  worker the style \<open>assign_style\<close> returned, and the dict of \<open>logs\<close> starts empty.  So
  every worker of the dict holds a palette style, whatever passes ran and whatever
  threads ended, and every set of styles in use that a pass hands to \<open>assign_style\<close>
  is a set of palette styles.
\<close>

lemma palette_styles_empty: "palette_styles []"
  by (simp add: palette_styles_def)

lemma set_clearjunk_subset: "set (AList.clearjunk al) \<subseteq> set al"
  by (induction al rule: AList.clearjunk.induct) (auto simp: AList.delete_eq)

lemma used_styles_in_palette:
  assumes "palette_styles aw"
  shows "used_styles_of aw \<subseteq> set STYLES"
  using assms set_clearjunk_subset[of aw]
  by (auto simp: palette_styles_def used_styles_of_def dict_values_def list_all_iff)

lemma palette_styles_update:
  assumes "palette_styles aw" and "style w \<in> set STYLES"
  shows "palette_styles (AList.update k w aw)"
  using assms by (induction aw) (auto simp: palette_styles_def)

lemma palette_styles_thread_ends:
  assumes "palette_styles aw" and "map_of aw k = Some w"
  shows "palette_styles (AList.update k (w\<lparr>is_alive := False\<rparr>) aw)"
proof -
  have "(k, w) \<in> set aw" using assms(2) by (rule map_of_SomeD)
  then have "style w \<in> set STYLES" using assms(1) by (auto simp: palette_styles_def list_all_iff)
  then show ?thesis using palette_styles_update[OF assms(1), of "w\<lparr>is_alive := False\<rparr>" k] by simp
qed

lemma start_missing_palette_styles:
  assumes "palette_styles aw"
  shows "palette_styles (fst (snd (start_missing sha t s cs aw U))) \<and>
         list_all (\<lambda>w. style w \<in> set STYLES) (snd (snd (start_missing sha t s cs aw U)))"
  using assms
proof (induction cs arbitrary: aw U)
  case Nil
  then show ?case by simp
next
  case (Cons c cs)
  show ?case
  proof (cases "needs_worker aw (name c)")
    case True
    obtain st where st: "assign_style sha (name c) U = Inr st" "st \<in> set STYLES"
      using assign_style_total[of sha "name c" U] by blast
    have "style (new_worker (name c) st t s) = st" by (simp add: new_worker_def)
    then have "palette_styles (AList.update (name c) (new_worker (name c) st t s) aw)"
      using palette_styles_update[OF Cons.prems] st(2) by simp
    from Cons.IH[OF this] show ?thesis
      unfolding start_missing_needed[OF True st(1)] using st(2) by (simp add: new_worker_def)
  next
    case False
    show ?thesis unfolding start_missing_skip[OF False] using Cons.IH[OF Cons.prems] .
  qed
qed

lemma ensure_keeps_palette_styles:
  assumes "palette_styles aw"
    and "ensure_workers_for_matches sha str_lower listing pattern exact t s tty aw = (r, aw', started)"
  shows "palette_styles aw' \<and> list_all (\<lambda>w. style w \<in> set STYLES) started"
proof (cases "find_matching_containers str_lower listing pattern exact tty")
  case (Inl e)
  then show ?thesis using assms by (auto simp: ensure_workers_for_matches_def)
next
  case (Inr ms)
  then have "start_missing sha t s ms aw (used_styles_of aw) = (r, aw', started)"
    using assms(2) by (simp add: ensure_workers_for_matches_def)
  then show ?thesis
    using start_missing_palette_styles[OF assms(1), of sha t s ms "used_styles_of aw"] by simp
qed

lemma pass_used_styles_in_palette:
  assumes "palette_styles aw"
    and "ensure_workers_for_matches sha str_lower listing pattern exact t s tty aw = (r, aw', started)"
    and "started = pre @ w # post"
  shows "used_styles_of aw \<union> style ` set pre \<subseteq> set STYLES"
proof -
  have "list_all (\<lambda>w. style w \<in> set STYLES) started"
    using ensure_keeps_palette_styles[OF assms(1,2)] by simp
  then have "style ` set pre \<subseteq> set STYLES"
    using assms(3) by (auto simp: list_all_iff)
  then show ?thesis using used_styles_in_palette[OF assms(1)] by simp
qed

lemma start_missing_style_assigned:
  assumes "snd (snd (start_missing sha t s cs aw U)) = pre @ w # post"
  shows "assign_style sha (container_name w) (U \<union> style ` set pre) = Inr (style w)"
  using assms
proof (induction cs arbitrary: aw U pre)
  case Nil
  then show ?case by simp
next
  case step: (Cons c cs)
  show ?case
  proof (cases "needs_worker aw (name c)")
    case True
    obtain st where st: "assign_style sha (name c) U = Inr st"
      using assign_style_total[of sha "name c" U] by blast
    let ?w = "new_worker (name c) st t s"
    let ?res = "start_missing sha t s cs (AList.update (name c) ?w aw) (insert st U)"
    have eq: "?w # snd (snd ?res) = pre @ w # post"
      using step.prems unfolding start_missing_needed[OF True st] by simp
    show ?thesis
    proof (cases pre)
      case Nil
      then have "w = ?w" using eq by simp
      then show ?thesis using st Nil by (simp add: new_worker_def)
    next
      case (Cons v pre')
      then have v: "v = ?w" and rest: "snd (snd ?res) = pre' @ w # post" using eq by auto
      have "insert st U \<union> style ` set pre' = U \<union> style ` set pre"
        using Cons v by (auto simp: new_worker_def)
      with step.IH[OF rest] show ?thesis by simp
    qed
  next
    case False
    show ?thesis using step.prems step.IH[of aw U pre] unfolding start_missing_skip[OF False]
      by simp
  qed
qed

lemma palette_subset_full:
  assumes "used \<subseteq> set STYLES" and "card used = length STYLES"
  shows "used = set STYLES"
proof -
  have "card used = card (set STYLES)"
    using assms(2) distinct_STYLES by (simp add: distinct_card)
  then show ?thesis using assms(1) by (simp add: card_subset_eq)
qed

text \<open>
  C3.  When the styles in use, which are palette styles, are as many as the palette
  has, \<open>assign_style\<close> returns the hashed style \<open>STYLES[hashed_index(name)]\<close>, as a
  value and not as an exception.
\<close>

theorem assign_style_all_used:
  assumes "used \<subseteq> set STYLES" and "card used = length STYLES"
  shows "assign_style sha nm used = Inr (STYLES ! hashed_index sha nm)"
proof -
  have "set STYLES \<subseteq> used" using palette_subset_full[OF assms] by simp
  then show ?thesis by (rule assign_style_exhausted)
qed

theorem assign_style_all_used_witness:
  "set STYLES \<subseteq> set STYLES \<and> card (set STYLES) = length STYLES \<and>
   assign_style sample_sha ''api'' (set STYLES) = Inr ''bold red''"
  using assign_style_all_used[of "set STYLES" sample_sha "''api''"] distinct_STYLES
  by (simp add: distinct_card hashed_index_api) (simp add: STYLES_def)

text \<open>
  The same in a pass of the supervisor: a worker started when as many styles are in use
  as the palette has holds the hashed style of its name.
\<close>

lemma exhausted_pass_reuses_hashed_style:
  assumes "palette_styles aw"
    and "ensure_workers_for_matches sha str_lower listing pattern exact t s tty aw = (r, aw', started)"
    and "started = pre @ w # post"
    and "card (used_styles_of aw \<union> style ` set pre) = length STYLES"
  shows "style w = STYLES ! hashed_index sha (container_name w)"
proof (cases "find_matching_containers str_lower listing pattern exact tty")
  case (Inl e)
  then show ?thesis using assms(2,3) by (simp add: ensure_workers_for_matches_def)
next
  case (Inr ms)
  then have "snd (snd (start_missing sha t s ms aw (used_styles_of aw))) = pre @ w # post"
    using assms(2,3) by (simp add: ensure_workers_for_matches_def)
  from start_missing_style_assigned[OF this]
  have "assign_style sha (container_name w) (used_styles_of aw \<union> style ` set pre) = Inr (style w)" .
  moreover have "assign_style sha (container_name w) (used_styles_of aw \<union> style ` set pre) =
      Inr (STYLES ! hashed_index sha (container_name w))"
    using palette_subset_full[OF pass_used_styles_in_palette[OF assms(1,2,3)] assms(4)]
    by (simp add: assign_style_exhausted)
  ultimately show ?thesis by simp
qed

subsection \<open>Passes of the supervisor\<close>

lemma hashed_index_x: "hashed_index sample_sha ''x'' = 5"
  by (simp add: hashed_index_def sample_sha_def length_STYLES)

lemma assign_api_empty: "assign_style sample_sha ''api'' {} = Inr ''bold red''"
  by (simp add: assign_style_def hashed_index_api getitem_def STYLES_def)

lemma assign_x_after_api: "assign_style sample_sha ''x'' {''bold red'', ''cyan''} = Inr ''magenta''"
  by (simp add: assign_style_def hashed_index_x getitem_def STYLES_def)

lemma assign_api_cyan: "assign_style sample_sha ''api'' {''cyan''} = Inr ''bold red''"
  by (simp add: assign_style_def hashed_index_api getitem_def STYLES_def)

lemma sample_matches:
  "find_matching_containers ascii_lower sample_listing [] False False = Inr [api_running, x_running]"
  by (simp add: find_matching_containers_def sample_listing_def lower_def api_running_def
        x_running_def is_tty_container_def truthy_def)

lemma sample_used: "used_styles_of sample_workers = {''cyan''}"
  by (simp add: used_styles_of_def dict_values_def sample_workers_def db_worker_def api_dead_def
        api_worker_def new_worker_def)

lemma sample_pass:
  "ensure_workers_for_matches sample_sha ascii_lower sample_listing [] False ''all'' None False sample_workers =
     (None, [(''db'', db_worker), (''api'', api_worker), (''x'', x_worker)], [api_worker, x_worker])"
proof -
  have n1: "needs_worker sample_workers ''api''"
    by (simp add: needs_worker_def sample_workers_def api_dead_def)
  have n2: "needs_worker (AList.update ''api'' api_worker sample_workers) ''x''"
    by (simp add: needs_worker_def sample_workers_def)
  have "start_missing sample_sha ''all'' None [api_running, x_running] sample_workers {''cyan''} =
     (None, [(''db'', db_worker), (''api'', api_worker), (''x'', x_worker)], [api_worker, x_worker])"
    using n1 n2 assign_api_cyan assign_x_after_api
    by (simp add: api_running_def x_running_def api_worker_def[symmetric] x_worker_def[symmetric])
       (simp add: sample_workers_def)
  then show ?thesis
    by (simp add: ensure_workers_for_matches_def sample_matches sample_used)
qed

text \<open>
  C6.  A second call of \<open>ensure_workers_for_matches\<close>, with the same listing and on the
  dict the first call left, leaves that dict as it is and starts no worker, so no new
  thread prints a banner; it raises what the first call raised.
\<close>

theorem reconcile_idempotent:
  assumes "ensure_workers_for_matches sha str_lower listing pattern exact t s tty aw = (r, aw', started)"
  shows "ensure_workers_for_matches sha str_lower listing pattern exact t s tty aw' = (r, aw', [])"
proof (cases "find_matching_containers str_lower listing pattern exact tty")
  case (Inl e)
  then show ?thesis using assms by (simp add: ensure_workers_for_matches_def)
next
  case (Inr ms)
  let ?res = "start_missing sha t s ms aw (used_styles_of aw)"
  have res: "?res = (r, aw', started)"
    using assms Inr by (simp add: ensure_workers_for_matches_def)
  then have r: "r = None" using start_missing_never_raises[of sha t s ms aw "used_styles_of aw"]
    by simp
  have "\<forall>c \<in> set ms. \<not> needs_worker aw' (name c)"
    using start_missing_serves_all[of _ ms sha t s aw "used_styles_of aw"] res by simp
  from start_missing_all_served[OF this] show ?thesis
    using Inr r by (simp add: ensure_workers_for_matches_def)
qed

theorem reconcile_idempotent_witness:
  "ensure_workers_for_matches sample_sha ascii_lower sample_listing [] False ''all'' None False sample_workers =
     (None, [(''db'', db_worker), (''api'', api_worker), (''x'', x_worker)], [api_worker, x_worker]) \<and>
   ensure_workers_for_matches sample_sha ascii_lower sample_listing [] False ''all'' None False
     [(''db'', db_worker), (''api'', api_worker), (''x'', x_worker)] =
     (None, [(''db'', db_worker), (''api'', api_worker), (''x'', x_worker)], [])"
  using reconcile_idempotent[OF sample_pass] sample_pass by simp

text \<open>
  C7.  Let \<open>w\<close> be a worker started in a pass, after the workers \<open>pre\<close> of the same
  pass.  If some palette style is neither held by a worker alive at the start of the
  pass nor given to a worker of \<open>pre\<close>, the style of \<open>w\<close> is none of those styles.
\<close>

theorem new_style_is_unused:
  assumes "ensure_workers_for_matches sha str_lower listing pattern exact t s tty aw = (r, aw', started)"
    and "started = pre @ w # post"
    and "\<not> set STYLES \<subseteq> used_styles_of aw \<union> style ` set pre"
  shows "style w \<notin> used_styles_of aw \<union> style ` set pre"
proof (cases "find_matching_containers str_lower listing pattern exact tty")
  case (Inl e)
  then show ?thesis using assms by (simp add: ensure_workers_for_matches_def)
next
  case (Inr ms)
  then have "snd (snd (start_missing sha t s ms aw (used_styles_of aw))) = pre @ w # post"
    using assms(1,2) by (simp add: ensure_workers_for_matches_def)
  from start_missing_fresh_style[OF this assms(3)] show ?thesis by simp
qed

theorem new_style_is_unused_witness:
  "ensure_workers_for_matches sample_sha ascii_lower sample_listing [] False ''all'' None False sample_workers =
     (None, [(''db'', db_worker), (''api'', api_worker), (''x'', x_worker)], [api_worker, x_worker]) \<and>
   [api_worker, x_worker] = [api_worker] @ x_worker # [] \<and>
   \<not> set STYLES \<subseteq> used_styles_of sample_workers \<union> style ` set [api_worker] \<and>
   used_styles_of sample_workers \<union> style ` set [api_worker] = {''cyan'', ''bold red''} \<and>
   style x_worker = ''magenta'' \<and>
   style x_worker \<notin> used_styles_of sample_workers \<union> style ` set [api_worker]"
proof -
  have split: "[api_worker, x_worker] = [api_worker] @ x_worker # []" by simp
  have free: "\<not> set STYLES \<subseteq> used_styles_of sample_workers \<union> style ` set [api_worker]"
    by (simp add: sample_used api_worker_def new_worker_def STYLES_def)
  show ?thesis
    using new_style_is_unused[OF sample_pass split free] sample_pass free
    by (auto simp: sample_used api_worker_def x_worker_def new_worker_def)
qed

text \<open>
  C9.  A pass keeps every entry whose worker is alive, removes no key, and changes an
  entry only by storing a worker it starts under a matched name that had no live
  worker.  The model has no operation that stops a worker.
\<close>

theorem reconcile_additive_only:
  assumes "ensure_workers_for_matches sha str_lower listing pattern exact t s tty aw = (r, aw', started)"
  shows "(\<forall>nm w. map_of aw nm = Some w \<and> is_alive w \<longrightarrow> map_of aw' nm = Some w) \<and>
         dom (map_of aw) \<subseteq> dom (map_of aw') \<and>
         (\<forall>nm. map_of aw' nm \<noteq> map_of aw nm \<longrightarrow>
                needs_worker aw nm \<and> (\<exists>w \<in> set started. map_of aw' nm = Some w) \<and>
                (\<exists>ms. find_matching_containers str_lower listing pattern exact tty = Inr ms \<and>
                       nm \<in> name ` set ms))"
proof (cases "find_matching_containers str_lower listing pattern exact tty")
  case (Inl e)
  then show ?thesis using assms by (auto simp: ensure_workers_for_matches_def)
next
  case (Inr ms)
  let ?res = "start_missing sha t s ms aw (used_styles_of aw)"
  have res: "?res = (r, aw', started)"
    using assms Inr by (simp add: ensure_workers_for_matches_def)
  have keep: "\<forall>nm w. map_of aw nm = Some w \<and> is_alive w \<longrightarrow> map_of aw' nm = Some w"
    using start_missing_keeps_alive[of aw _ _ sha t s ms "used_styles_of aw"] res by simp
  have change: "\<forall>nm. map_of aw' nm \<noteq> map_of aw nm \<longrightarrow>
                needs_worker aw nm \<and> (\<exists>w \<in> set started. map_of aw' nm = Some w) \<and>
                nm \<in> name ` set ms"
    using start_missing_changes[of sha t s ms aw "used_styles_of aw"] res by auto
  have "dom (map_of aw) \<subseteq> dom (map_of aw')"
  proof
    fix nm assume "nm \<in> dom (map_of aw)"
    then show "nm \<in> dom (map_of aw')"
      using change by (cases "map_of aw' nm = map_of aw nm") auto
  qed
  with keep change Inr show ?thesis by simp
qed

theorem reconcile_additive_only_witness:
  "ensure_workers_for_matches sample_sha ascii_lower sample_listing [] False ''all'' None False sample_workers =
     (None, [(''db'', db_worker), (''api'', api_worker), (''x'', x_worker)], [api_worker, x_worker]) \<and>
   map_of sample_workers ''db'' = Some db_worker \<and> is_alive db_worker \<and>
   map_of [(''db'', db_worker), (''api'', api_worker), (''x'', x_worker)] ''db'' = Some db_worker \<and>
   dom (map_of sample_workers) \<subseteq>
     dom (map_of [(''db'', db_worker), (''api'', api_worker), (''x'', x_worker)]) \<and>
   needs_worker sample_workers ''api''"
proof -
  have db: "map_of sample_workers ''db'' = Some db_worker"
    by (simp add: sample_workers_def)
  have alive: "is_alive db_worker"
    by (simp add: db_worker_def new_worker_def)
  have dead: "needs_worker sample_workers ''api''"
    by (simp add: needs_worker_def sample_workers_def api_dead_def)
  from reconcile_additive_only[OF sample_pass] db alive
  have kept: "map_of [(''db'', db_worker), (''api'', api_worker), (''x'', x_worker)] ''db'' =
                Some db_worker"
    and keys: "dom (map_of sample_workers) \<subseteq>
                dom (map_of [(''db'', db_worker), (''api'', api_worker), (''x'', x_worker)])"
    by blast+
  from sample_pass db alive kept keys dead show ?thesis by blast
qed

subsection \<open>Main loop\<close>

text \<open>
  C5.  The code falls short of the claim.  The guard of the exact-mode retry is
  \<open>not active_workers\<close>, which asks whether the dict is empty and not whether a worker
  is alive.  When the dict holds a record for the target whose thread has ended, there
  is no live worker for the target, yet the pass calls \<open>ensure_workers_for_matches\<close>
  not at all and leaves the dict as it is.  \<open>ensure_workers_for_matches\<close> itself
  tests \<open>is_alive\<close> and would replace the record, as the substring-mode pass does.
\<close>

theorem exact_mode_skips_dead_worker:
  assumes "map_of aw pattern = Some w" and "\<not> is_alive w"
  shows "\<not> alive_worker_for aw pattern \<and>
         main_loop_body sha str_lower listing pattern True t s refresh tty now aw lr =
           (None, aw, lr, [LoopSleep 0.2])"
proof -
  have "aw \<noteq> []" using assms(1) by auto
  then show ?thesis
    using assms by (simp add: alive_worker_for_def main_loop_body_def retry_exact_def)
qed

theorem exact_mode_skips_dead_worker_witness:
  "map_of [(''api'', api_dead)] ''api'' = Some api_dead \<and> \<not> is_alive api_dead \<and>
   \<not> alive_worker_for [(''api'', api_dead)] ''api'' \<and>
   main_loop_body sample_sha ascii_lower (Inr [api_running]) ''api'' True ''all'' None 1 False 10
       [(''api'', api_dead)] 0 =
     (None, [(''api'', api_dead)], 0, [LoopSleep 0.2]) \<and>
   reconciliations [LoopSleep 0.2] = 0 \<and>
   ensure_workers_for_matches sample_sha ascii_lower (Inr [api_running]) ''api'' True ''all'' None
       False [(''api'', api_dead)] =
     (None, [(''api'', api_worker)], [api_worker]) \<and>
   main_loop_body sample_sha ascii_lower (Inr [api_running]) ''api'' False ''all'' None 1 False 10
       [(''api'', api_dead)] 0 =
     (None, [(''api'', api_worker)], 10, [Reconcile [api_worker], LoopSleep 0.2])"
proof -
  have rec: "map_of [(''api'', api_dead)] ''api'' = Some api_dead" by simp
  have dead: "\<not> is_alive api_dead" by (simp add: api_dead_def)
  have direct: "ensure_workers_for_matches sample_sha ascii_lower (Inr [api_running]) pat ex
       ''all'' None False [(''api'', api_dead)] =
     (None, [(''api'', api_worker)], [api_worker])"
    if "find_matching_containers ascii_lower (Inr [api_running]) pat ex False = Inr [api_running]"
    for pat ex
    using that assign_api_empty dead
    by (simp add: ensure_workers_for_matches_def api_running_def used_styles_of_def
          dict_values_def needs_worker_def api_worker_def Let_def)
  have m1: "find_matching_containers ascii_lower (Inr [api_running]) ''api'' True False =
              Inr [api_running]"
    by (simp add: find_matching_containers_def api_running_def is_tty_container_def truthy_def)
  have m2: "find_matching_containers ascii_lower (Inr [api_running]) ''api'' False False =
              Inr [api_running]"
    by (simp add: find_matching_containers_def api_running_def is_tty_container_def truthy_def
          lower_def ascii_lower_def ascii_lower_char_def Let_def sublist_code)
  have sub: "main_loop_body sample_sha ascii_lower (Inr [api_running]) ''api'' False ''all'' None 1
       False 10 [(''api'', api_dead)] 0 =
     (None, [(''api'', api_worker)], 10, [Reconcile [api_worker], LoopSleep 0.2])"
    using direct[OF m2] by (simp add: main_loop_body_def retry_exact_def)
  have cnt: "reconciliations [LoopSleep 0.2] = 0" by (simp add: reconciliations_def)
  from exact_mode_skips_dead_worker[OF rec dead, of sample_sha ascii_lower "Inr [api_running]"
         "''all''" None 1 False 10 0]
       rec dead direct[OF m1] sub cnt
  show ?thesis by blast
qed

end
